theory Spec2Isabelle
  imports Complex_Main "HOL-Library.Word"
begin

section \<open>JavaScript numbers\<close>

text \<open>
  The engine of the repository is \<^verbatim>\<open>analyzeImagePixelData\<close> with its helper
  \<^verbatim>\<open>rgbToHsv\<close> (TypeScript). Its numbers are IEEE-754 doubles. A finite double is a
  rational number, so a number of the program is \<open>Num q\<close> for a rational \<open>q\<close>, or
  \<open>NaN\<close>. The value \<^verbatim>\<open>undefined\<close>, which a read past the end of a typed array
  yields, is \<open>NaN\<close> too: the program only compares such a value, tests it with
  \<^verbatim>\<open>===\<close> against a number, or computes with it, and in each of these
  \<^verbatim>\<open>undefined\<close> behaves as \<^verbatim>\<open>NaN\<close> does.

  Every arithmetic result is rounded to the nearest double, ties to even
  (\<open>round_double\<close>). The exponent range is not modelled: all values of this program
  lie far inside it. Pixel counts and image dimensions are modelled as \<open>int\<close>: an
  integer of magnitude at most \<open>2^53\<close> is a double, and a sum, difference or product of
  such integers that stays in this range is computed without rounding
  (\<open>round_double_int\<close>). The statements below about \<^verbatim>\<open>width * height\<close> and
  \<^verbatim>\<open>totalPixels - excludedPixels\<close> are made for inputs in this range, where the
  integer operations of \<open>assemble\<close> are the operations of the source.
\<close>

datatype jsnum = Num rat | NaN

definition round_half_even :: "rat \<Rightarrow> int" where
  "round_half_even y =
     (let f = \<lfloor>y\<rfloor>; t = y - of_int f in
      if t < 1 / 2 then f
      else if 1 / 2 < t then f + 1
      else if even f then f else f + 1)"

text \<open>\<open>binade x\<close> is the exponent \<open>e\<close> with \<open>2^e \<le> x < 2^(e+1)\<close>, for \<open>x > 0\<close>.\<close>

function binade :: "rat \<Rightarrow> int" where
  "binade x =
     (if x \<le> 0 then 0
      else if x < 1 then binade (2 * x) - 1
      else if 2 \<le> x then binade (x / 2) + 1
      else 0)"
  by pat_completeness auto

lemma ceiling_half_less: "2 \<le> (y::rat) \<Longrightarrow> \<lceil>y / 2\<rceil> < \<lceil>y\<rceil>"
proof -
  assume "2 \<le> y"
  have "rat_of_int \<lceil>y / 2\<rceil> < y / 2 + 1" by linarith
  also have "\<dots> \<le> y" using \<open>2 \<le> y\<close> by simp
  also have "\<dots> \<le> rat_of_int \<lceil>y\<rceil>" by linarith
  finally show ?thesis by simp
qed

lemma floor_half_less: "2 \<le> (x::rat) \<Longrightarrow> \<lfloor>x / 2\<rfloor> < \<lfloor>x\<rfloor>"
proof -
  assume "2 \<le> x"
  have "rat_of_int \<lfloor>x / 2\<rfloor> \<le> x / 2" by linarith
  also have "\<dots> \<le> x - 1" using \<open>2 \<le> x\<close> by simp
  also have "\<dots> < rat_of_int \<lfloor>x\<rfloor>" by linarith
  finally show ?thesis by simp
qed

termination binade
proof (relation "measure (\<lambda>x. if x < 1 then 2 * nat \<lceil>1 / x\<rceil> else nat \<lfloor>x\<rfloor>)")
  show "wf (measure (\<lambda>x::rat. if x < 1 then 2 * nat \<lceil>1 / x\<rceil> else nat \<lfloor>x\<rfloor>))"
    by simp
next
  fix x :: rat
  assume a: "\<not> x \<le> 0" "x < 1"
  then have "1 < 1 / x" by simp
  then have c2: "2 \<le> \<lceil>1 / x\<rceil>" by linarith
  show "(2 * x, x) \<in> measure (\<lambda>x. if x < 1 then 2 * nat \<lceil>1 / x\<rceil> else nat \<lfloor>x\<rfloor>)"
  proof (cases "2 * x < 1")
    case True
    then have "2 \<le> 1 / x" using a by (simp add: field_simps)
    from ceiling_half_less [OF this] have "\<lceil>1 / (2 * x)\<rceil> < \<lceil>1 / x\<rceil>"
      by (simp add: field_simps)
    moreover have "0 < \<lceil>1 / (2 * x)\<rceil>" using a by simp
    ultimately show ?thesis using True a by simp
  next
    case False
    then have "nat \<lfloor>2 * x\<rfloor> = 1" using a by linarith
    moreover have "2 \<le> nat \<lceil>1 / x\<rceil>" using c2 by linarith
    ultimately have "nat \<lfloor>2 * x\<rfloor> < 2 * nat \<lceil>1 / x\<rceil>" by linarith
    then show ?thesis using False a by simp
  qed
next
  fix x :: rat
  assume a: "\<not> x \<le> 0" "\<not> x < 1" "2 \<le> x"
  from floor_half_less [OF a(3)] have "\<lfloor>x / 2\<rfloor> < \<lfloor>x\<rfloor>" .
  moreover have "0 \<le> \<lfloor>x / 2\<rfloor>" using a by simp
  ultimately show "(x / 2, x) \<in> measure (\<lambda>x. if x < 1 then 2 * nat \<lceil>1 / x\<rceil> else nat \<lfloor>x\<rfloor>)"
    using a by simp
qed

declare binade.simps [simp del]

text \<open>
  Rounding to a double: a significand of 53 bits, that is an integer multiple of
  \<open>2^(e-52)\<close> in the binade \<open>e\<close>.
\<close>

definition round_double :: "rat \<Rightarrow> rat" where
  "round_double x =
     (if x = 0 then 0
      else let u = 2 powi (binade \<bar>x\<bar> - 52) in of_int (round_half_even (x / u)) * u)"

text \<open>
  The operators of the program. A comparison or \<^verbatim>\<open>===\<close> with \<open>NaN\<close> is false, an
  arithmetic result with a \<open>NaN\<close> operand is \<open>NaN\<close>, and so is \<^verbatim>\<open>Math.max\<close> or
  \<^verbatim>\<open>Math.min\<close> with a \<open>NaN\<close> argument. JavaScript divides by zero without an
  error and yields an infinity or \<^verbatim>\<open>NaN\<close>; the model has no infinities and
  yields \<open>NaN\<close> for a zero divisor, so a result \<open>Num q\<close> shows that no division
  on the way had a zero divisor.
\<close>

fun js_add :: "jsnum \<Rightarrow> jsnum \<Rightarrow> jsnum" where
  "js_add (Num a) (Num b) = Num (round_double (a + b))"
| "js_add _ _ = NaN"

fun js_sub :: "jsnum \<Rightarrow> jsnum \<Rightarrow> jsnum" where
  "js_sub (Num a) (Num b) = Num (round_double (a - b))"
| "js_sub _ _ = NaN"

fun js_mul :: "jsnum \<Rightarrow> jsnum \<Rightarrow> jsnum" where
  "js_mul (Num a) (Num b) = Num (round_double (a * b))"
| "js_mul _ _ = NaN"

fun js_div :: "jsnum \<Rightarrow> jsnum \<Rightarrow> jsnum" where
  "js_div (Num a) (Num b) = (if b = 0 then NaN else Num (round_double (a / b)))"
| "js_div _ _ = NaN"

fun js_lt :: "jsnum \<Rightarrow> jsnum \<Rightarrow> bool" where
  "js_lt (Num a) (Num b) = (a < b)"
| "js_lt _ _ = False"

fun js_le :: "jsnum \<Rightarrow> jsnum \<Rightarrow> bool" where
  "js_le (Num a) (Num b) = (a \<le> b)"
| "js_le _ _ = False"

definition js_gt :: "jsnum \<Rightarrow> jsnum \<Rightarrow> bool" where
  "js_gt a b = js_lt b a"

definition js_ge :: "jsnum \<Rightarrow> jsnum \<Rightarrow> bool" where
  "js_ge a b = js_le b a"

fun js_eqq :: "jsnum \<Rightarrow> jsnum \<Rightarrow> bool" where
  "js_eqq (Num a) (Num b) = (a = b)"
| "js_eqq _ _ = False"

fun Math_max :: "jsnum \<Rightarrow> jsnum \<Rightarrow> jsnum \<Rightarrow> jsnum" where
  "Math_max (Num a) (Num b) (Num c) = Num (max a (max b c))"
| "Math_max _ _ _ = NaN"

fun Math_min :: "jsnum \<Rightarrow> jsnum \<Rightarrow> jsnum \<Rightarrow> jsnum" where
  "Math_min (Num a) (Num b) (Num c) = Num (min a (min b c))"
| "Math_min _ _ _ = NaN"

text \<open>A decimal literal of the source denotes the double next to it.\<close>

definition lit :: "rat \<Rightarrow> jsnum" where
  "lit q = Num (round_double q)"

section \<open>The data model\<close>

text \<open>
  \<^verbatim>\<open>ImageData\<close>: the declared dimensions and the \<^verbatim>\<open>Uint8ClampedArray\<close> of RGBA
  bytes. \<^verbatim>\<open>AnalysisResult\<close> and \<^verbatim>\<open>ColorCategory\<close> are the interfaces of
  \<^verbatim>\<open>types.ts\<close>; both \<^verbatim>\<open>ImageData\<close> and \<^verbatim>\<open>AnalysisResult\<close> have the fields
  \<^verbatim>\<open>width\<close> and \<^verbatim>\<open>height\<close>, which the record \<open>dims\<close> holds for them. The
  field \<^verbatim>\<open>id\<close> of a category is \<open>ident\<close> here, \<open>id\<close> being the identity function.
\<close>

record dims =
  width :: int
  height :: int

record ImageData = dims +
  data :: "8 word list"

record ColorCategory =
  name :: string
  ident :: string
  color :: string
  count :: int
  percentage :: jsnum

record AnalysisResult = dims +
  totalPixels :: int
  processedPixels :: int
  excludedPixels :: int
  categories :: "ColorCategory list"

text \<open>\<^verbatim>\<open>data[i]\<close>: the byte as a number, \<^verbatim>\<open>undefined\<close> past the end.\<close>

definition byte :: "8 word \<Rightarrow> jsnum" where
  "byte w = Num (of_nat (unat w))"

definition elem :: "8 word list \<Rightarrow> nat \<Rightarrow> jsnum" where
  "elem xs i = (if i < length xs then byte (xs ! i) else NaN)"

section \<open>\<^verbatim>\<open>rgbToHsv\<close>\<close>

record hsv =
  hsv_h :: jsnum
  hsv_s :: jsnum
  hsv_v :: jsnum

text \<open>
  The \<^verbatim>\<open>switch (max)\<close> takes the first case that is \<^verbatim>\<open>===\<close> to \<open>max\<close>; when
  none is (a \<open>NaN\<close> maximum), \<open>h\<close> keeps its initial 0.
\<close>

definition rgbToHsv :: "jsnum \<Rightarrow> jsnum \<Rightarrow> jsnum \<Rightarrow> hsv" where
  "rgbToHsv r0 g0 b0 =
     (let r = js_div r0 (Num 255);
          g = js_div g0 (Num 255);
          b = js_div b0 (Num 255);
          mx = Math_max r g b;
          mn = Math_min r g b;
          v = mx;
          d = js_sub mx mn;
          s = (if js_eqq mx (Num 0) then Num 0 else js_div d mx);
          h = (if \<not> js_eqq mx mn then
                 js_div
                   (if js_eqq mx r then
                      js_add (js_div (js_sub g b) d) (if js_lt g b then Num 6 else Num 0)
                    else if js_eqq mx g then js_add (js_div (js_sub b r) d) (Num 2)
                    else if js_eqq mx b then js_add (js_div (js_sub r g) d) (Num 4)
                    else Num 0)
                   (Num 6)
               else Num 0)
      in \<lparr>hsv_h = js_mul h (Num 360), hsv_s = s, hsv_v = v\<rparr>)"

section \<open>\<^verbatim>\<open>analyzeImagePixelData\<close>\<close>

text \<open>The local counters of the function (\<open>excluded\<close> is the local \<^verbatim>\<open>excludedPixels\<close>).\<close>

record counters =
  excluded :: int
  countWarm :: int
  countDarkGreen :: int
  countBlue :: int
  countNeonGreen :: int
  countGrey :: int
  countOther :: int

text \<open>One iteration of the loop, at index \<open>i\<close>; each \<^verbatim>\<open>continue\<close> ends it.\<close>

definition loop_body :: "8 word list \<Rightarrow> nat \<Rightarrow> counters \<Rightarrow> counters" where
  "loop_body xs i c =
     (let r = elem xs i; g = elem xs (i + 1); b = elem xs (i + 2) in
      if js_lt (elem xs (i + 3)) (Num 255) then c\<lparr>excluded := excluded c + 1\<rparr>
      else
        let isMagenta = (js_eqq r (Num 255) \<and> js_eqq g (Num 0) \<and> js_eqq b (Num 255));
            isBorder = (js_gt r (Num 150) \<and> js_gt b (Num 150) \<and> js_lt g (Num 60))
        in
        if isMagenta \<or> isBorder then c\<lparr>excluded := excluded c + 1\<rparr>
        else if js_eqq r (Num 0) \<and> js_eqq g (Num 146) \<and> js_eqq b (Num 69)
          then c\<lparr>countDarkGreen := countDarkGreen c + 1\<rparr>
        else if js_eqq r (Num 0) \<and> js_eqq g (Num 0) \<and> js_eqq b (Num 255)
          then c\<lparr>countBlue := countBlue c + 1\<rparr>
        else if js_eqq r (Num 0) \<and> js_eqq g (Num 255) \<and> js_eqq b (Num 0)
          then c\<lparr>countNeonGreen := countNeonGreen c + 1\<rparr>
        else if js_eqq r (Num 77) \<and> js_eqq g (Num 77) \<and> js_eqq b (Num 77)
          then c\<lparr>countGrey := countGrey c + 1\<rparr>
        else
          let x = rgbToHsv r g b in
          if js_ge (hsv_h x) (Num 0) \<and> js_le (hsv_h x) (Num 75)
             \<and> js_ge (hsv_s x) (lit (55 / 100)) \<and> js_ge (hsv_v x) (lit (35 / 100))
          then c\<lparr>countWarm := countWarm c + 1\<rparr>
          else c\<lparr>countOther := countOther c + 1\<rparr>)"

text \<open>\<^verbatim>\<open>for (let i = 0; i < data.length; i += 4)\<close>, from index \<open>i\<close> on.\<close>

function loop :: "8 word list \<Rightarrow> nat \<Rightarrow> counters \<Rightarrow> counters" where
  "loop xs i c = (if i < length xs then loop xs (i + 4) (loop_body xs i c) else c)"
  by pat_completeness auto
termination
  by (relation "measure (\<lambda>(xs, i, c). length xs - i)") auto

declare loop.simps [simp del]

definition zero_counters :: counters where
  "zero_counters =
     \<lparr>excluded = 0, countWarm = 0, countDarkGreen = 0, countBlue = 0,
      countNeonGreen = 0, countGrey = 0, countOther = 0\<rparr>"

text \<open>\<^verbatim>\<open>(count / safeTotal) * 100\<close>\<close>

definition percent :: "int \<Rightarrow> int \<Rightarrow> jsnum" where
  "percent n safeTotal = js_mul (js_div (Num (of_int n)) (Num (of_int safeTotal))) (Num 100)"

definition assemble :: "int \<Rightarrow> int \<Rightarrow> counters \<Rightarrow> AnalysisResult" where
  "assemble w h c =
     (let totalPixels = w * h;
          processedPixels = totalPixels - excluded c;
          safeTotal = (if processedPixels = 0 then 1 else processedPixels)
      in \<lparr>width = w, height = h,
          totalPixels = totalPixels,
          processedPixels = processedPixels,
          excludedPixels = excluded c,
          categories =
            [\<lparr>name = ''Warm (Red/Orange/Yellow)'', ident = ''warm'', color = ''#ed1c24'',
              count = countWarm c, percentage = percent (countWarm c) safeTotal\<rparr>,
             \<lparr>name = ''Dark Green (#009245)'', ident = ''dark_green'', color = ''#009245'',
              count = countDarkGreen c, percentage = percent (countDarkGreen c) safeTotal\<rparr>,
             \<lparr>name = ''Blue (#0000ff)'', ident = ''blue'', color = ''#0000ff'',
              count = countBlue c, percentage = percent (countBlue c) safeTotal\<rparr>,
             \<lparr>name = ''Neon Green (#00ff00)'', ident = ''neon_green'', color = ''#00ff00'',
              count = countNeonGreen c, percentage = percent (countNeonGreen c) safeTotal\<rparr>,
             \<lparr>name = ''Grey (#4d4d4d)'', ident = ''grey'', color = ''#4d4d4d'',
              count = countGrey c, percentage = percent (countGrey c) safeTotal\<rparr>,
             \<lparr>name = ''Other / Unclassified'', ident = ''other'', color = ''#9CA3AF'',
              count = countOther c, percentage = percent (countOther c) safeTotal\<rparr>]\<rparr>)"

definition analyzeImagePixelData :: "ImageData \<Rightarrow> AnalysisResult" where
  "analyzeImagePixelData imageData =
     assemble (width imageData) (height imageData) (loop (data imageData) 0 zero_counters)"

text \<open>
  What a caller observes of a call. The body has no \<^verbatim>\<open>throw\<close> and none of its
  operations throws on an object of the \<^verbatim>\<open>ImageData\<close> interface (a read past the
  end of the typed array yields \<^verbatim>\<open>undefined\<close>), so every call completes with the
  returned record; \<open>Inl\<close> stands for a thrown error.
\<close>

datatype error = MalformedInputError

definition call_analyzeImagePixelData :: "ImageData \<Rightarrow> error + AnalysisResult" where
  "call_analyzeImagePixelData imageData = Inr (analyzeImagePixelData imageData)"

section \<open>Objects and references\<close>

text \<open>
  For the effect of a call on the objects of the caller, the store holds the objects by
  address: the \<^verbatim>\<open>ImageData\<close> object with its three fields, the typed array its
  \<^verbatim>\<open>data\<close> field refers to, and whatever else exists. A field holds an integer, a
  number, a string or a reference. The call reads \<^verbatim>\<open>width\<close>, \<^verbatim>\<open>height\<close> and
  \<^verbatim>\<open>data\<close> of its argument and the bytes of the array; it assigns to no field and
  to no array element. The array literal \<^verbatim>\<open>categories\<close> creates six objects and the
  array of their references, and the \<^verbatim>\<open>return\<close> creates the result object; a new
  object gets the next free address. The call returns the address of the result.
\<close>

type_synonym addr = nat

datatype jsval = IntV int | NumV jsnum | StrV string | RefV addr

datatype obj = Bytes "8 word list" | Fields "(string \<times> jsval) list" | Elements "jsval list"

type_synonym store = "obj list"

definition load_ImageData :: "store \<Rightarrow> addr \<Rightarrow> ImageData option" where
  "load_ImageData s p =
     (if p < length s then
        (case s ! p of
           Fields fs \<Rightarrow>
             (case (map_of fs ''width'', map_of fs ''height'', map_of fs ''data'') of
                (Some (IntV w), Some (IntV h), Some (RefV q)) \<Rightarrow>
                  (if q < length s then
                     (case s ! q of
                        Bytes xs \<Rightarrow> Some \<lparr>width = w, height = h, data = xs\<rparr>
                      | _ \<Rightarrow> None)
                   else None)
              | _ \<Rightarrow> None)
         | _ \<Rightarrow> None)
      else None)"

definition alloc :: "obj \<Rightarrow> store \<Rightarrow> addr \<times> store" where
  "alloc ob s = (length s, s @ [ob])"

definition category_object :: "ColorCategory \<Rightarrow> obj" where
  "category_object c =
     Fields [(''id'', StrV (ident c)), (''name'', StrV (name c)), (''color'', StrV (color c)),
             (''count'', IntV (count c)), (''percentage'', NumV (percentage c))]"

definition result_object :: "AnalysisResult \<Rightarrow> addr \<Rightarrow> obj" where
  "result_object res a =
     Fields [(''totalPixels'', IntV (totalPixels res)),
             (''processedPixels'', IntV (processedPixels res)),
             (''excludedPixels'', IntV (excludedPixels res)),
             (''categories'', RefV a),
             (''width'', IntV (width res)), (''height'', IntV (height res))]"

definition analyzeImagePixelData_store :: "store \<Rightarrow> addr \<Rightarrow> (addr \<times> store) option" where
  "analyzeImagePixelData_store s p =
     (case load_ImageData s p of
        None \<Rightarrow> None
      | Some imageData \<Rightarrow>
          let res = analyzeImagePixelData imageData;
              n = length s;
              s1 = s @ map category_object (categories res);
              (a, s2) = alloc (Elements (map RefV [n ..< length s1])) s1;
              (r, s3) = alloc (result_object res a) s2
          in Some (r, s3))"

text \<open>The addresses an object refers to, and the objects reachable from an address.\<close>

fun refs_of_val :: "jsval \<Rightarrow> addr set" where
  "refs_of_val (RefV a) = {a}"
| "refs_of_val _ = {}"

fun refs_of :: "obj \<Rightarrow> addr set" where
  "refs_of (Bytes xs) = {}"
| "refs_of (Fields fs) = (\<Union>v \<in> set (map snd fs). refs_of_val v)"
| "refs_of (Elements vs) = (\<Union>v \<in> set vs. refs_of_val v)"

inductive_set reachable :: "store \<Rightarrow> addr \<Rightarrow> addr set" for s :: store and a :: addr where
  start: "a \<in> reachable s a"
| step: "b \<in> reachable s a \<Longrightarrow> b < length s \<Longrightarrow> c \<in> refs_of (s ! b) \<Longrightarrow> c \<in> reachable s a"

definition one_pixel_store :: store where
  "one_pixel_store =
     [Bytes [0, 146, 69, 255],
      Fields [(''width'', IntV 1), (''height'', IntV 1), (''data'', RefV 0)]]"

section \<open>The classification policy as the specification words it\<close>

text \<open>
  The specification describes the per-pixel algorithm as an exclusion rule followed by
  an ordered list of category rules, of which the first that matches wins, with
  \<open>Other\<close> as the fallback. These definitions follow the specification; the theorems
  below compare the loop body of the source with them. The Warm rule appears twice: as
  the test the source performs on its computed doubles (\<open>warm_test\<close>, the rule of the
  list), and as the band of the specification on the exact hue, saturation and value of
  the pixel (\<open>spec_warm_band\<close>).
\<close>

datatype category = Excluded | DarkGreen | Blue | NeonGreen | Grey | Warm | Other


text \<open>
  The Warm test as the source evaluates it: on the three doubles that \<^verbatim>\<open>rgbToHsv\<close>
  returns for the bytes of the pixel, against the double literals \<^verbatim>\<open>0.55\<close> and
  \<^verbatim>\<open>0.35\<close>. It is the Warm rule of the rule list below.
\<close>

definition warm_test :: "8 word \<Rightarrow> 8 word \<Rightarrow> 8 word \<Rightarrow> bool" where
  "warm_test r g b =
     (let x = rgbToHsv (byte r) (byte g) (byte b) in
      js_ge (hsv_h x) (Num 0) \<and> js_le (hsv_h x) (Num 75)
      \<and> js_ge (hsv_s x) (lit (55 / 100)) \<and> js_ge (hsv_v x) (lit (35 / 100)))"

text \<open>
  The conversion as the specification words it, on exact numbers: the channels
  normalised to \<open>[0,1]\<close>, \<open>V = max\<close>, \<open>delta = max - min\<close>, \<open>S = 0\<close> if
  \<open>max = 0\<close> and \<open>delta / max\<close> otherwise, and the hue by the 6-piece formula with 60
  degrees per sector, 0 when \<open>delta = 0\<close>. The result is (H, S, V).
\<close>

definition spec_rgbToHsv :: "8 word \<Rightarrow> 8 word \<Rightarrow> 8 word \<Rightarrow> rat \<times> rat \<times> rat" where
  "spec_rgbToHsv r g b =
     (let R = of_nat (unat r) / 255; G = of_nat (unat g) / 255; B = of_nat (unat b) / 255;
          mx = max R (max G B);
          mn = min R (min G B);
          delta = mx - mn;
          V = mx;
          S = (if mx = 0 then 0 else delta / mx);
          H = (if delta = 0 then 0
               else if mx = R then 60 * ((G - B) / delta + (if G < B then 6 else 0))
               else if mx = G then 60 * ((B - R) / delta + 2)
               else 60 * ((R - G) / delta + 4))
      in (H, S, V))"





text \<open>Counting a pixel under a category: that counter grows by one, no other changes.\<close>

fun bump :: "category \<Rightarrow> counters \<Rightarrow> counters" where
  "bump Excluded c = c\<lparr>excluded := excluded c + 1\<rparr>"
| "bump DarkGreen c = c\<lparr>countDarkGreen := countDarkGreen c + 1\<rparr>"
| "bump Blue c = c\<lparr>countBlue := countBlue c + 1\<rparr>"
| "bump NeonGreen c = c\<lparr>countNeonGreen := countNeonGreen c + 1\<rparr>"
| "bump Grey c = c\<lparr>countGrey := countGrey c + 1\<rparr>"
| "bump Warm c = c\<lparr>countWarm := countWarm c + 1\<rparr>"
| "bump Other c = c\<lparr>countOther := countOther c + 1\<rparr>"

text \<open>The number of pixels counted so far, over all seven counters.\<close>

definition counted :: "counters \<Rightarrow> int" where
  "counted c = excluded c + (countWarm c + countDarkGreen c + countBlue c
     + countNeonGreen c + countGrey c + countOther c)"

text \<open>No counter is negative.\<close>

definition counters_nonneg :: "counters \<Rightarrow> bool" where
  "counters_nonneg c =
     (0 \<le> excluded c \<and> 0 \<le> countWarm c \<and> 0 \<le> countDarkGreen c \<and> 0 \<le> countBlue c
      \<and> 0 \<le> countNeonGreen c \<and> 0 \<le> countGrey c \<and> 0 \<le> countOther c)"

text \<open>Concrete inputs whose buffer length is not \<open>width * height * 4\<close>.\<close>

definition short_buffer :: ImageData where
  "short_buffer = \<lparr>width = 2, height = 2, data = [0, 146, 69, 255]\<rparr>"

definition long_buffer :: ImageData where
  "long_buffer =
     \<lparr>width = 1, height = 1, data = [0, 146, 69, 255,  9, 9, 9, 0,  9, 9, 9, 0]\<rparr>"

definition ragged_buffer :: ImageData where
  "ragged_buffer = \<lparr>width = 0, height = 0, data = [0, 146, 69]\<rparr>"


definition thirds :: ImageData where
  "thirds = \<lparr>width = 3, height = 1,
     data = [0, 146, 69, 255,  0, 0, 255, 255,  0, 255, 0, 255]\<rparr>"

section \<open>Properties of rounding\<close>

text \<open>
  Rounding is odd, monotone and idempotent, it keeps the sign, and its relative error
  is at most \<open>2^-53\<close>.
\<close>

lemma two_powi_pos: "0 < (2::rat) powi e"
  by (simp add: zero_less_power_int)

lemma two_powi_Suc: "(2::rat) powi (e + 1) = 2 * 2 powi e"
  by (simp add: power_int_add)

lemma two_powi_pred: "(2::rat) powi (e - 1) = 2 powi e / 2"
  by (simp add: power_int_diff)

lemma binade_bounds:
  "0 < x \<Longrightarrow> 2 powi binade x \<le> x \<and> x < 2 powi (binade x + 1)"
proof (induction x rule: binade.induct)
  case (1 x)
  show ?case
  proof (cases "x < 1")
    case True
    with "1.prems" have e: "binade x = binade (2 * x) - 1"
      by (subst binade.simps) simp
    from "1.IH"(1) True "1.prems"
    have "2 powi binade (2 * x) \<le> 2 * x \<and> 2 * x < 2 powi (binade (2 * x) + 1)"
      by simp
    then show ?thesis
      unfolding e by (simp add: two_powi_pred two_powi_Suc)
  next
    case False
    note nlt = this
    show ?thesis
    proof (cases "2 \<le> x")
      case True
      with nlt "1.prems" have e: "binade x = binade (x / 2) + 1"
        by (subst binade.simps) simp
      from "1.IH"(2) True nlt "1.prems"
      have "2 powi binade (x / 2) \<le> x / 2 \<and> x / 2 < 2 powi (binade (x / 2) + 1)"
        by simp
      then have "2 * 2 powi binade (x / 2) \<le> x \<and> x < 2 * 2 powi (binade (x / 2) + 1)"
        by simp
      then show ?thesis
        unfolding e by (simp only: two_powi_Suc [symmetric])
    next
      case False
      with nlt "1.prems" have e: "binade x = 0"
        by (subst binade.simps) simp
      show ?thesis unfolding e using nlt False by simp
    qed
  qed
qed

lemma binade_unique:
  assumes "2 powi e \<le> x" and "x < 2 powi (e + 1)"
  shows "binade x = e"
proof -
  have pos: "0 < x" using assms(1) two_powi_pos [of e] by linarith
  from binade_bounds [OF pos]
  have b: "2 powi binade x \<le> x" "x < 2 powi (binade x + 1)" by simp_all
  have "\<not> binade x < e"
  proof
    assume "binade x < e"
    then have "(2::rat) powi (binade x + 1) \<le> 2 powi e"
      by (intro power_int_increasing) simp_all
    with b(2) assms(1) show False by linarith
  qed
  moreover have "\<not> e < binade x"
  proof
    assume "e < binade x"
    then have "(2::rat) powi (e + 1) \<le> 2 powi binade x"
      by (intro power_int_increasing) simp_all
    with b(1) assms(2) show False by linarith
  qed
  ultimately show ?thesis by linarith
qed

lemma binade_mono:
  assumes "0 < x" and "x \<le> y"
  shows "binade x \<le> binade y"
proof (rule ccontr)
  assume "\<not> binade x \<le> binade y"
  then have "(2::rat) powi (binade y + 1) \<le> 2 powi binade x"
    by (intro power_int_increasing) simp_all
  moreover have "y < 2 powi (binade y + 1)" "2 powi binade x \<le> x"
    using binade_bounds [of x] binade_bounds [of y] assms by simp_all
  ultimately show False using assms by linarith
qed

lemma round_half_even_cases:
  "round_half_even y = \<lfloor>y\<rfloor> \<or> round_half_even y = \<lfloor>y\<rfloor> + 1"
  by (simp add: round_half_even_def Let_def)

lemma round_half_even_error: "\<bar>of_int (round_half_even y) - y\<bar> \<le> 1 / 2"
proof -
  have "rat_of_int \<lfloor>y\<rfloor> \<le> y" "y < rat_of_int \<lfloor>y\<rfloor> + 1" by linarith+
  then show ?thesis
    by (auto simp add: round_half_even_def Let_def abs_le_iff not_less)
qed

lemma round_half_even_of_int [simp]: "round_half_even (of_int k) = k"
  by (simp add: round_half_even_def)

lemma round_half_even_mono:
  assumes "x \<le> y"
  shows "round_half_even x \<le> round_half_even y"
proof (cases "\<lfloor>x\<rfloor> = \<lfloor>y\<rfloor>")
  case True
  then show ?thesis using assms
    by (auto simp add: round_half_even_def Let_def)
next
  case False
  with assms have "\<lfloor>x\<rfloor> + 1 \<le> \<lfloor>y\<rfloor>"
    using floor_mono [OF assms] by linarith
  moreover have "round_half_even x \<le> \<lfloor>x\<rfloor> + 1" "\<lfloor>y\<rfloor> \<le> round_half_even y"
    using round_half_even_cases [of x] round_half_even_cases [of y] by linarith+
  ultimately show ?thesis by linarith
qed

lemma round_half_even_uminus: "round_half_even (- y) = - round_half_even y"
proof (cases "y \<in> \<int>")
  case True
  then obtain k where "y = of_int k" by (auto elim: Ints_cases)
  then show ?thesis
    by (simp only: of_int_minus [symmetric] round_half_even_of_int)
next
  case False
  then have "y \<noteq> of_int \<lfloor>y\<rfloor>"
    by (metis Ints_of_int)
  then have f: "\<lfloor>- y\<rfloor> = - \<lfloor>y\<rfloor> - 1"
    by (simp add: floor_minus ceiling_altdef)
  show ?thesis
    by (auto simp add: round_half_even_def Let_def f)
qed

lemma two_powi_split: "(2::rat) powi e = 2 powi (e - 52) * 2 ^ 52"
proof -
  have "(2::rat) powi e = 2 powi ((e - 52) + 52)" by simp
  also have "\<dots> = 2 powi (e - 52) * 2 powi 52"
    by (rule power_int_add) simp
  finally show ?thesis by simp
qed

lemma round_double_pos_form:
  assumes "0 < x"
  defines "u \<equiv> 2 powi (binade x - 52)"
  defines "m \<equiv> round_half_even (x / u)"
  shows "round_double x = of_int m * u"
    and "2 ^ 52 \<le> m" and "m \<le> 2 ^ 53"
    and "\<bar>of_int m - x / u\<bar> \<le> 1 / 2"
    and "2 ^ 52 \<le> x / u" and "x / u < 2 ^ 53"
proof -
  have upos: "0 < u" by (simp add: u_def two_powi_pos)
  from binade_bounds [OF assms(1)]
  have b: "2 powi binade x \<le> x" "x < 2 powi (binade x + 1)" by simp_all
  have lo: "u * 2 ^ 52 \<le> x"
    using b(1) two_powi_split [of "binade x"] by (simp add: u_def)
  have hi: "x < u * 2 ^ 53"
    using b(2) two_powi_split [of "binade x"] by (simp add: u_def two_powi_Suc)
  show q1: "2 ^ 52 \<le> x / u" using lo upos by (simp add: pos_le_divide_eq mult.commute)
  show q2: "x / u < 2 ^ 53" using hi upos by (simp add: pos_divide_less_eq mult.commute)
  show "round_double x = of_int m * u"
    using assms(1) by (simp add: round_double_def m_def u_def Let_def)
  have "round_half_even (of_int (2 ^ 52)) \<le> m"
    unfolding m_def by (rule round_half_even_mono) (use q1 in simp)
  then show "2 ^ 52 \<le> m" by (simp only: round_half_even_of_int)
  have "m \<le> round_half_even (of_int (2 ^ 53))"
    unfolding m_def by (rule round_half_even_mono) (use q2 in simp)
  then show "m \<le> 2 ^ 53" by (simp only: round_half_even_of_int)
  show "\<bar>of_int m - x / u\<bar> \<le> 1 / 2"
    unfolding m_def by (rule round_half_even_error)
qed

lemma round_double_uminus: "round_double (- x) = - round_double x"
  by (simp add: round_double_def Let_def round_half_even_uminus)

lemma round_double_zero [simp]: "round_double 0 = 0"
  by (simp add: round_double_def)

lemma round_double_pos_bounds:
  assumes "0 < x"
  shows "2 powi binade x \<le> round_double x" and "round_double x \<le> 2 powi (binade x + 1)"
proof -
  define u :: rat where "u = 2 powi (binade x - 52)"
  define m where "m = round_half_even (x / u)"
  have upos: "0 < u" by (simp add: u_def two_powi_pos)
  note f = round_double_pos_form [OF assms, folded u_def, folded m_def]
  have "rat_of_int (2 ^ 52) \<le> of_int m" using f(2) by (simp only: of_int_le_iff)
  then have "u * 2 ^ 52 \<le> u * of_int m"
    using upos by simp
  then show "2 powi binade x \<le> round_double x"
    using two_powi_split [of "binade x"] by (simp add: f(1) u_def mult.commute)
  have "rat_of_int m \<le> of_int (2 ^ 53)" using f(3) by (simp only: of_int_le_iff)
  then have "u * of_int m \<le> u * 2 ^ 53"
    using upos by simp
  then show "round_double x \<le> 2 powi (binade x + 1)"
    using two_powi_split [of "binade x"] by (simp add: f(1) u_def mult.commute two_powi_Suc)
qed

lemma round_double_pos: "0 < x \<Longrightarrow> 0 < round_double x"
  using round_double_pos_bounds(1) [of x] two_powi_pos [of "binade x"] by linarith

lemma round_double_error_pos:
  assumes "0 < x"
  shows "\<bar>round_double x - x\<bar> \<le> x / 2 ^ 53"
proof -
  define u :: rat where "u = 2 powi (binade x - 52)"
  define m where "m = round_half_even (x / u)"
  have upos: "0 < u" by (simp add: u_def two_powi_pos)
  note f = round_double_pos_form [OF assms, folded u_def, folded m_def]
  have "round_double x - x = u * (of_int m - x / u)"
    using upos by (simp add: f(1) field_simps)
  then have "\<bar>round_double x - x\<bar> = u * \<bar>of_int m - x / u\<bar>"
    using upos by (simp add: abs_mult)
  also have "\<dots> \<le> u * (1 / 2)"
    using f(4) upos by (intro mult_left_mono) simp_all
  also have "\<dots> \<le> x / 2 ^ 53"
  proof -
    have "u * 2 ^ 52 \<le> x" using f(5) upos by (simp add: pos_le_divide_eq mult.commute)
    then show ?thesis by simp
  qed
  finally show ?thesis .
qed

lemma round_double_error: "\<bar>round_double x - x\<bar> \<le> \<bar>x\<bar> / 2 ^ 53"
proof -
  consider "x = 0" | "0 < x" | "x < 0" by linarith
  then show ?thesis
  proof cases
    case 1 then show ?thesis by simp
  next
    case 2 then show ?thesis using round_double_error_pos [of x] by simp
  next
    case 3
    then have "\<bar>round_double (- x) - (- x)\<bar> \<le> (- x) / 2 ^ 53"
      by (intro round_double_error_pos) simp
    then show ?thesis using 3 by (simp add: round_double_uminus abs_minus_commute)
  qed
qed

lemma round_double_mono_pos:
  assumes "0 < x" and "x \<le> y"
  shows "round_double x \<le> round_double y"
proof -
  have ypos: "0 < y" using assms by linarith
  have le: "binade x \<le> binade y" using assms by (rule binade_mono)
  show ?thesis
  proof (cases "binade x = binade y")
    case True
    define u :: rat where "u = 2 powi (binade x - 52)"
    have upos: "0 < u" by (simp add: u_def two_powi_pos)
    have "round_half_even (x / u) \<le> round_half_even (y / u)"
      using assms upos by (intro round_half_even_mono divide_right_mono) simp_all
    then have "rat_of_int (round_half_even (x / u)) * u \<le> of_int (round_half_even (y / u)) * u"
      using upos by (intro mult_right_mono) simp_all
    then show ?thesis
      using assms(1) ypos True by (simp add: round_double_def Let_def u_def)
  next
    case False
    with le have "binade x + 1 \<le> binade y" by linarith
    then have "(2::rat) powi (binade x + 1) \<le> 2 powi binade y"
      by (intro power_int_increasing) simp_all
    with round_double_pos_bounds(2) [OF assms(1)] round_double_pos_bounds(1) [OF ypos]
    show ?thesis by linarith
  qed
qed

lemma round_double_nonneg: "0 \<le> x \<Longrightarrow> 0 \<le> round_double x"
  using round_double_pos [of x] by (cases "x = 0") (simp_all add: less_imp_le)

lemma round_double_mono:
  assumes "x \<le> y"
  shows "round_double x \<le> round_double y"
proof -
  consider "0 < x" | "x \<le> 0" "0 \<le> y" | "y < 0" using assms by linarith
  then show ?thesis
  proof cases
    case 1 then show ?thesis using assms by (rule round_double_mono_pos)
  next
    case 2
    then have "0 \<le> round_double (- x)" by (intro round_double_nonneg) simp
    then have "round_double x \<le> 0" by (simp add: round_double_uminus)
    moreover have "0 \<le> round_double y" using 2 by (intro round_double_nonneg)
    ultimately show ?thesis by linarith
  next
    case 3
    then have "round_double (- y) \<le> round_double (- x)"
      using assms by (intro round_double_mono_pos) simp_all
    then show ?thesis by (simp add: round_double_uminus)
  qed
qed

lemma round_double_exact:
  assumes "0 < y" and "y / 2 powi (binade y - 52) = of_int k"
  shows "round_double y = y"
proof -
  define u :: rat where "u = 2 powi (binade y - 52)"
  have upos: "0 < u" by (simp add: u_def two_powi_pos)
  have q: "y / u = of_int k" using assms(2) by (simp add: u_def)
  have "round_double y = of_int (round_half_even (y / u)) * u"
    using assms(1) by (simp add: round_double_def Let_def u_def)
  also have "\<dots> = of_int k * u" by (simp only: q round_half_even_of_int)
  also have "\<dots> = y" using q upos by (simp add: field_simps)
  finally show ?thesis .
qed

lemma round_double_idem_pos:
  assumes "0 < x"
  shows "round_double (round_double x) = round_double x"
proof -
  define u :: rat where "u = 2 powi (binade x - 52)"
  define m where "m = round_half_even (x / u)"
  have upos: "0 < u" by (simp add: u_def two_powi_pos)
  note f = round_double_pos_form [OF assms, folded u_def, folded m_def]
  have ypos: "0 < round_double x" using assms by (rule round_double_pos)
  show ?thesis
  proof (cases "m = 2 ^ 53")
    case True
    then have y: "round_double x = 2 powi (binade x + 1)"
      using two_powi_split [of "binade x"] by (simp add: f(1) u_def two_powi_Suc)
    have "(2::rat) powi (binade x + 1) < 2 powi (binade x + 1 + 1)"
      by (rule power_int_strict_increasing) simp_all
    then have e: "binade (round_double x) = binade x + 1"
      unfolding y by (intro binade_unique) simp_all
    have "(2::rat) powi (binade x + 1) / 2 powi (binade x + 1 - 52) = of_int (2 ^ 52)"
      using two_powi_split [of "binade x + 1"] two_powi_pos [of "binade x + 1 - 52"]
      by (simp add: field_simps)
    then have "round_double x / 2 powi (binade (round_double x) - 52) = of_int (2 ^ 52)"
      by (simp only: e) (simp only: y)
    with ypos show ?thesis by (rule round_double_exact)
  next
    case False
    with f(3) have "m < 2 ^ 53" by linarith
    then have "rat_of_int m < of_int (2 ^ 53)" by (simp only: of_int_less_iff)
    then have "rat_of_int m < 2 ^ 53" by simp
    then have "of_int m * u < 2 ^ 53 * u" using upos by simp
    then have hi: "round_double x < 2 powi (binade x + 1)"
      using two_powi_split [of "binade x"] by (simp add: f(1) u_def two_powi_Suc mult.commute)
    have e: "binade (round_double x) = binade x"
      by (rule binade_unique) (rule round_double_pos_bounds(1) [OF assms], rule hi)
    have "round_double x / u = of_int m" using upos by (simp add: f(1))
    then have "round_double x / 2 powi (binade (round_double x) - 52) = of_int m"
      by (simp only: e u_def)
    with ypos show ?thesis by (rule round_double_exact)
  qed
qed

lemma round_double_idem [simp]: "round_double (round_double x) = round_double x"
proof -
  consider "x = 0" | "0 < x" | "x < 0" by linarith
  then show ?thesis
  proof cases
    case 1 then show ?thesis by simp
  next
    case 2 then show ?thesis by (rule round_double_idem_pos)
  next
    case 3
    then have "round_double (round_double (- x)) = round_double (- x)"
      by (intro round_double_idem_pos) simp
    then show ?thesis by (simp add: round_double_uminus)
  qed
qed

text \<open>An integer of magnitude at most \<open>2^53\<close> is a double.\<close>

lemma round_double_int_pos:
  assumes "0 < k" and "k \<le> 2 ^ 53"
  shows "round_double (of_int k) = of_int k"
proof -
  define y :: rat where "y = of_int k"
  define e where "e = binade y"
  have ypos: "0 < y" using assms(1) by (simp add: y_def)
  have y1: "1 \<le> y" using assms(1) by (simp add: y_def)
  have "rat_of_int k \<le> of_int (2 ^ 53)" using assms(2) by (simp only: of_int_le_iff)
  then have y53: "y \<le> 2 ^ 53" by (simp add: y_def)
  have b: "2 powi e \<le> y" "y < 2 powi (e + 1)"
    using binade_bounds [OF ypos] by (simp_all add: e_def)
  have "binade 1 \<le> binade y" using y1 by (intro binade_mono) simp_all
  moreover have "binade (1::rat) = 0" by (rule binade_unique) simp_all
  ultimately have e0: "0 \<le> e" by (simp add: e_def)
  have "binade y \<le> binade (2 ^ 53)" using ypos y53 by (rule binade_mono)
  moreover have "binade ((2::rat) ^ 53) = 53" by (rule binade_unique) simp_all
  ultimately have e53: "e \<le> 53" by (simp add: e_def)
  show ?thesis
  proof (cases "e = 53")
    case True
    then have "2 ^ 53 \<le> y" using b(1) by simp
    with y53 have y: "y = 2 ^ 53" by simp
    have by53: "binade y = 53" using True by (simp add: e_def)
    have "y / 2 powi (binade y - 52) = y / 2" unfolding by53 by simp
    also have "\<dots> = of_int (2 ^ 52)" unfolding y by simp
    finally have "y / 2 powi (binade y - 52) = of_int (2 ^ 52)" .
    with ypos show ?thesis unfolding y_def [symmetric] by (rule round_double_exact)
  next
    case False
    with e53 have le: "e \<le> 52" by simp
    define n where "n = nat (52 - e)"
    have "(2::rat) powi (e - 52) = 2 powi (- int n)" using le by (simp add: n_def)
    also have "\<dots> = 1 / 2 ^ n" by (simp add: power_int_minus divide_inverse)
    finally have u: "(2::rat) powi (e - 52) = 1 / 2 ^ n" .
    have "y / 2 powi (binade y - 52) = y / 2 powi (e - 52)" by (simp add: e_def)
    also have "\<dots> = of_int (k * 2 ^ n)" unfolding u by (simp add: y_def)
    finally have "y / 2 powi (binade y - 52) = of_int (k * 2 ^ n)" .
    with ypos show ?thesis unfolding y_def [symmetric] by (rule round_double_exact)
  qed
qed

lemma round_double_int:
  assumes "\<bar>k\<bar> \<le> 2 ^ 53"
  shows "round_double (of_int k) = of_int k"
proof (cases k "0 :: int" rule: linorder_cases)
  case less
  then have "round_double (of_int (- k)) = of_int (- k)"
    using assms by (intro round_double_int_pos) simp_all
  then show ?thesis using round_double_uminus [of "of_int k"] by simp
next
  case equal
  then show ?thesis by simp
next
  case greater
  then show ?thesis using assms by (intro round_double_int_pos) simp_all
qed

lemma product_exact:
  assumes "\<bar>w * h\<bar> \<le> 2 ^ 53"
  shows "js_mul (Num (of_int w)) (Num (of_int h)) = Num (of_int (w * h))"
  using round_double_int [OF assms] by simp

lemma difference_exact:
  assumes "\<bar>t - x\<bar> \<le> 2 ^ 53"
  shows "js_sub (Num (of_int t)) (Num (of_int x)) = Num (of_int (t - x))"
  using round_double_int [OF assms] by simp

lemma round_double_consts:
  "round_double 1 = 1" "round_double (- 1) = - 1" "round_double (- (1 / 256)) = - (1 / 256)"
  by code_simp+

text \<open>The last three operations of the hue: \<open>h /= 6\<close> and \<open>h * 360\<close>, after the sum.\<close>

lemma hue_scale_mono:
  assumes "lo \<le> z" and "z \<le> hi"
  shows "round_double (round_double (round_double lo / 6) * 360)
           \<le> round_double (round_double (round_double z / 6) * 360)"
    and "round_double (round_double (round_double z / 6) * 360)
           \<le> round_double (round_double (round_double hi / 6) * 360)"
  using assms
  by (auto intro!: round_double_mono mult_right_mono divide_right_mono)

lemma hue_scale_consts:
  "round_double (round_double (round_double 0 / 6) * 360) = 0"
  "round_double (round_double (round_double 1 / 6) * 360) = 60"
  "round_double (round_double (round_double 3 / 6) * 360) = 180"
  "round_double (round_double (round_double 5 / 6) * 360) = 300"
  "round_double (round_double (round_double (1535 / 256) / 6) * 360) < 360"
  by code_simp+

lemma sector_term:
  assumes "0 \<le> mn" and "mx \<le> 1" and "mn < mx"
    and "mn \<le> x" and "x \<le> mx" and "mn \<le> y" and "y \<le> mx"
  defines "d \<equiv> round_double (mx - mn)"
  defines "t \<equiv> round_double (round_double (x - y) / d)"
  shows "0 < d" and "- 1 \<le> t" and "t \<le> 1"
    and "y \<le> x \<Longrightarrow> 0 \<le> t"
    and "x + 1 / 256 \<le> y \<Longrightarrow> t \<le> - (1 / 256)"
proof -
  show dpos: "0 < d" unfolding d_def using assms(3) by (intro round_double_pos) simp
  have d1: "d \<le> 1"
    unfolding d_def using assms(1,2) round_double_mono [of "mx - mn" 1]
    by (simp add: round_double_consts)
  have up: "round_double (x - y) \<le> d"
    unfolding d_def using assms by (intro round_double_mono) linarith
  have "round_double (- (mx - mn)) \<le> round_double (x - y)"
    using assms by (intro round_double_mono) linarith
  then have lo: "- d \<le> round_double (x - y)"
    by (simp only: round_double_uminus d_def)
  have "- 1 \<le> round_double (x - y) / d"
    using lo dpos by (simp add: pos_le_divide_eq)
  then show "- 1 \<le> t"
    unfolding t_def using round_double_mono [of "- 1" "round_double (x - y) / d"]
    by (simp add: round_double_consts)
  have "round_double (x - y) / d \<le> 1"
    using up dpos by (simp add: pos_divide_le_eq)
  then show "t \<le> 1"
    unfolding t_def using round_double_mono [of "round_double (x - y) / d" 1]
    by (simp add: round_double_consts)
  show "0 \<le> t" if "y \<le> x"
  proof -
    have "0 \<le> round_double (x - y)" using that by (intro round_double_nonneg) simp
    then have "0 \<le> round_double (x - y) / d" using dpos by simp
    then show ?thesis unfolding t_def by (rule round_double_nonneg)
  qed
  show "t \<le> - (1 / 256)" if "x + 1 / 256 \<le> y"
  proof -
    have "round_double (x - y) \<le> round_double (- (1 / 256))"
      using that by (intro round_double_mono) linarith
    then have n: "round_double (x - y) \<le> - (1 / 256)"
      by (simp only: round_double_consts)
    have "round_double (x - y) / d \<le> round_double (x - y)"
    proof -
      have "round_double (x - y) * 1 \<le> round_double (x - y) * d \<Longrightarrow> ?thesis"
        using dpos by (simp add: pos_divide_le_eq)
      moreover have "round_double (x - y) * 1 \<le> round_double (x - y) * d"
        using n d1 by (intro mult_left_mono_neg) linarith+
      ultimately show ?thesis .
    qed
    with n have "round_double (x - y) / d \<le> - (1 / 256)" by linarith
    then show ?thesis
      unfolding t_def using round_double_mono [of "round_double (x - y) / d" "- (1 / 256)"]
      by (simp only: round_double_consts)
  qed
qed

section \<open>The conversion on bytes\<close>

lemma unsigned_byte_bounds: "0 \<le> (unsigned (w :: 8 word) :: rat) \<and> (unsigned w :: rat) \<le> 255"
proof -
  have "unat w < 2 ^ 8" using unsigned_less [of w] by simp
  then have "unat w \<le> 255" by simp
  then have "rat_of_nat (unat w) \<le> 255" by (metis of_nat_le_iff of_nat_numeral)
  moreover have "0 \<le> rat_of_nat (unat w)" by (rule of_nat_0_le_iff)
  moreover have "(unsigned w :: rat) = rat_of_nat (unat w)" by simp
  ultimately show ?thesis by (simp only:)
qed

lemma norm_unit:
  "0 \<le> round_double (unsigned (w :: 8 word) / 255) \<and> round_double (unsigned w / 255) \<le> 1"
proof -
  have "0 \<le> (unsigned w :: rat) / 255" "(unsigned w :: rat) / 255 \<le> 1"
    using unsigned_byte_bounds [of w] by simp_all
  then show ?thesis
    using round_double_nonneg [of "unsigned w / 255"] round_double_mono [of "unsigned w / 255" 1]
    by (simp add: round_double_consts)
qed

lemma norm_gap:
  assumes "(v :: 8 word) < w"
  shows "round_double (unsigned v / 255) + 1 / 256 \<le> round_double (unsigned w / 255)"
proof -
  have "unat v < unat w" using assms by (simp add: word_less_nat_alt)
  then have "unat v + 1 \<le> unat w" by simp
  then have "rat_of_nat (unat v + 1) \<le> rat_of_nat (unat w)" by (simp only: of_nat_le_iff)
  then have vw: "(unsigned v :: rat) + 1 \<le> unsigned w" by simp
  have ev: "\<bar>round_double (unsigned v / 255) - unsigned v / 255\<bar> \<le> 1 / 2 ^ 53"
  proof -
    have "\<bar>(unsigned v :: rat) / 255\<bar> \<le> 1" using unsigned_byte_bounds [of v] by simp
    then have "\<bar>(unsigned v :: rat) / 255\<bar> / 2 ^ 53 \<le> 1 / 2 ^ 53"
      by (intro divide_right_mono) simp_all
    with round_double_error [of "unsigned v / 255"] show ?thesis by linarith
  qed
  have ew: "\<bar>round_double (unsigned w / 255) - unsigned w / 255\<bar> \<le> 1 / 2 ^ 53"
  proof -
    have "\<bar>(unsigned w :: rat) / 255\<bar> \<le> 1" using unsigned_byte_bounds [of w] by simp
    then have "\<bar>(unsigned w :: rat) / 255\<bar> / 2 ^ 53 \<le> 1 / 2 ^ 53"
      by (intro divide_right_mono) simp_all
    with round_double_error [of "unsigned w / 255"] show ?thesis by linarith
  qed
  have h: "(unsigned v :: rat) / 255 + 1 / 255 \<le> unsigned w / 255" using vw by simp
  have c: "(1::rat) / 2 ^ 53 \<le> 1 / 1000000" by simp
  from ev ew h c show ?thesis by linarith
qed

lemma norm_less_iff:
  "(round_double (unsigned (v :: 8 word) / 255) < round_double (unsigned (w :: 8 word) / 255))
     = (v < w)"
proof
  assume "v < w"
  from norm_gap [OF this] show "round_double (unsigned v / 255) < round_double (unsigned w / 255)"
    by linarith
next
  assume a: "round_double (unsigned v / 255) < round_double (unsigned w / 255)"
  show "v < w"
  proof (rule ccontr)
    assume "\<not> v < w"
    then have "w \<le> v" by simp
    then have "unat w \<le> unat v" by (simp add: word_le_nat_alt)
    then have "rat_of_nat (unat w) \<le> rat_of_nat (unat v)" by (simp only: of_nat_le_iff)
    then have "(unsigned w :: rat) \<le> unsigned v" by simp
    then have "round_double (unsigned w / 255) \<le> round_double (unsigned v / 255)"
      by (intro round_double_mono divide_right_mono) simp_all
    with a show False by linarith
  qed
qed

lemma rgbToHsv_byte:
  fixes r g b :: "8 word"
  defines "R \<equiv> round_double (unsigned r / 255)"
    and "G \<equiv> round_double (unsigned g / 255)"
    and "B \<equiv> round_double (unsigned b / 255)"
  defines "mx \<equiv> max R (max G B)" and "mn \<equiv> min R (min G B)"
  defines "d \<equiv> round_double (mx - mn)"
  shows "hsv_v (rgbToHsv (byte r) (byte g) (byte b)) = Num mx"
    and "hsv_s (rgbToHsv (byte r) (byte g) (byte b))
          = (if mx = 0 then Num 0 else js_div (Num d) (Num mx))"
    and "hsv_h (rgbToHsv (byte r) (byte g) (byte b))
          = js_mul
              (if mx \<noteq> mn then
                 js_div
                   (if mx = R then
                      js_add (js_div (Num (round_double (G - B))) (Num d))
                        (if G < B then Num 6 else Num 0)
                    else if mx = G then js_add (js_div (Num (round_double (B - R))) (Num d)) (Num 2)
                    else if mx = B then js_add (js_div (Num (round_double (R - G))) (Num d)) (Num 4)
                    else Num 0)
                   (Num 6)
               else Num 0)
              (Num 360)"
  by (simp_all add: rgbToHsv_def byte_def Let_def R_def G_def B_def mx_def mn_def d_def)

lemma value_range:
  fixes r g b :: "8 word"
  shows "\<exists>vv. hsv_v (rgbToHsv (byte r) (byte g) (byte b)) = Num vv \<and> 0 \<le> vv \<and> vv \<le> 1"
  using norm_unit [of r] norm_unit [of g] norm_unit [of b]
  by (simp add: rgbToHsv_byte(1) max_def)

lemma saturation_range:
  fixes r g b :: "8 word"
  shows "\<exists>ss. hsv_s (rgbToHsv (byte r) (byte g) (byte b)) = Num ss \<and> 0 \<le> ss \<and> ss \<le> 1
           \<and> (r = 0 \<and> g = 0 \<and> b = 0 \<longrightarrow> ss = 0)"
proof -
  define R where "R = round_double (unsigned r / 255)"
  define G where "G = round_double (unsigned g / 255)"
  define B where "B = round_double (unsigned b / 255)"
  define mx where "mx = max R (max G B)"
  define mn where "mn = min R (min G B)"
  define d where "d = round_double (mx - mn)"
  note s = rgbToHsv_byte(2) [of r g b, folded R_def G_def B_def, folded mx_def mn_def, folded d_def]
  have u: "0 \<le> R" "R \<le> 1" "0 \<le> G" "G \<le> 1" "0 \<le> B" "B \<le> 1"
    using norm_unit [of r] norm_unit [of g] norm_unit [of b] by (simp_all add: R_def G_def B_def)
  have m: "0 \<le> mn" "mn \<le> mx" "mx \<le> 1" using u by (simp_all add: mx_def mn_def)
  have mxfix: "round_double mx = mx"
    by (simp add: mx_def max_def R_def G_def B_def)
  have d0: "0 \<le> d" unfolding d_def using m by (intro round_double_nonneg) simp
  have "d \<le> round_double mx" unfolding d_def using m by (intro round_double_mono) simp
  then have dm: "d \<le> mx" by (simp only: mxfix)
  have z: "mx = 0" if "r = 0 \<and> g = 0 \<and> b = 0"
    using that by (simp add: mx_def R_def G_def B_def)
  show ?thesis
  proof (cases "mx = 0")
    case True
    then show ?thesis by (simp add: s)
  next
    case False
    then have pos: "0 < mx" using m by linarith
    have "0 \<le> d / mx" "d / mx \<le> 1" using d0 dm pos by simp_all
    then have "0 \<le> round_double (d / mx)" "round_double (d / mx) \<le> 1"
      using round_double_nonneg [of "d / mx"] round_double_mono [of "d / mx" 1]
      by (simp_all add: round_double_consts)
    then show ?thesis using False z by (auto simp add: s)
  qed
qed

lemma hue_range:
  fixes r g b :: "8 word"
  shows "\<exists>hh. hsv_h (rgbToHsv (byte r) (byte g) (byte b)) = Num hh \<and> 0 \<le> hh \<and> hh < 360
           \<and> (r = g \<and> g = b \<longrightarrow> hh = 0)"
proof -
  define R where "R = round_double (unsigned r / 255)"
  define G where "G = round_double (unsigned g / 255)"
  define B where "B = round_double (unsigned b / 255)"
  define mx where "mx = max R (max G B)"
  define mn where "mn = min R (min G B)"
  define d where "d = round_double (mx - mn)"
  define H where "H = (\<lambda>z. round_double (round_double (round_double z / 6) * 360))"
  note h = rgbToHsv_byte(3) [of r g b, folded R_def G_def B_def, folded mx_def mn_def, folded d_def]
  have u: "0 \<le> R" "R \<le> 1" "0 \<le> G" "G \<le> 1" "0 \<le> B" "B \<le> 1"
    using norm_unit [of r] norm_unit [of g] norm_unit [of b] by (simp_all add: R_def G_def B_def)
  have m: "0 \<le> mn" "mx \<le> 1" using u by (simp_all add: mx_def mn_def)
  have in_R: "mn \<le> R" "R \<le> mx" and in_G: "mn \<le> G" "G \<le> mx" and in_B: "mn \<le> B" "B \<le> mx"
    by (simp_all add: mx_def mn_def)
  have Hm: "H lo \<le> H z \<and> H z \<le> H hi" if "lo \<le> z" "z \<le> hi" for lo z hi
    unfolding H_def using hue_scale_mono [OF that] by simp
  have Hc: "H 0 = 0" "H 1 = 60" "H 3 = 180" "H 5 = 300" "H (1535 / 256) < 360"
    unfolding H_def by (rule hue_scale_consts)+
  have eq: "mx = mn" if "r = g \<and> g = b"
    using that by (simp add: mx_def mn_def R_def G_def B_def)
  show ?thesis
  proof (cases "mx = mn")
    case True
    then show ?thesis by (simp add: h)
  next
    case False
    then have lt: "mn < mx" using in_R by linarith
    note st = sector_term [OF m lt]
    have dne: "d \<noteq> 0" using st(1) [OF in_R in_R] by (simp add: d_def)
    have goal: ?thesis if "hsv_h (rgbToHsv (byte r) (byte g) (byte b)) = Num (H z)"
      and "0 \<le> H z" and "H z < 360" for z
      using that False eq by auto
    have "mx = R \<or> mx = G \<or> mx = B" unfolding mx_def by linarith
    then consider (red_up) "mx = R" "\<not> G < B" | (red_down) "mx = R" "G < B"
      | (green) "mx \<noteq> R" "mx = G" | (blue) "mx \<noteq> R" "mx \<noteq> G" "mx = B"
      by blast
    then show ?thesis
    proof cases
      case red_up
      define t where "t = round_double (round_double (G - B) / d)"
      note s = st [OF in_G in_B, folded d_def, folded t_def]
      have "0 \<le> t" using s(4) red_up by simp
      then have "0 \<le> t + 0" "t + 0 \<le> 1" using s(3) by simp_all
      from Hm [OF this] have "0 \<le> H (t + 0)" "H (t + 0) < 360" using Hc by simp_all
      moreover have "hsv_h (rgbToHsv (byte r) (byte g) (byte b)) = Num (H (t + 0))"
        using False red_up dne by (simp add: h H_def t_def)
      ultimately show ?thesis by (intro goal)
    next
      case red_down
      define t where "t = round_double (round_double (G - B) / d)"
      note s = st [OF in_G in_B, folded d_def, folded t_def]
      have "g < b" using red_down(2) by (simp add: G_def B_def norm_less_iff)
      from norm_gap [OF this] have "G + 1 / 256 \<le> B" by (simp add: G_def B_def)
      then have "t \<le> - (1 / 256)" by (rule s(5))
      then have "5 \<le> t + 6" "t + 6 \<le> 1535 / 256" using s(2) by simp_all
      from Hm [OF this] have "0 \<le> H (t + 6)" "H (t + 6) < 360" using Hc by simp_all
      moreover have "hsv_h (rgbToHsv (byte r) (byte g) (byte b)) = Num (H (t + 6))"
        using False red_down dne by (simp add: h H_def t_def)
      ultimately show ?thesis by (intro goal)
    next
      case green
      define t where "t = round_double (round_double (B - R) / d)"
      note s = st [OF in_B in_R, folded d_def, folded t_def]
      have "1 \<le> t + 2" "t + 2 \<le> 3" using s(2,3) by simp_all
      from Hm [OF this] have "0 \<le> H (t + 2)" "H (t + 2) < 360" using Hc by simp_all
      moreover have "hsv_h (rgbToHsv (byte r) (byte g) (byte b)) = Num (H (t + 2))"
        using False green dne by (simp add: h H_def t_def)
      ultimately show ?thesis by (intro goal)
    next
      case blue
      define t where "t = round_double (round_double (R - G) / d)"
      note s = st [OF in_R in_G, folded d_def, folded t_def]
      have "3 \<le> t + 4" "t + 4 \<le> 5" using s(2,3) by simp_all
      from Hm [OF this] have "0 \<le> H (t + 4)" "H (t + 4) < 360" using Hc by simp_all
      moreover have "hsv_h (rgbToHsv (byte r) (byte g) (byte b)) = Num (H (t + 4))"
        using False blue dne by (simp add: h H_def t_def)
      ultimately show ?thesis by (intro goal)
    qed
  qed
qed

text \<open>The Warm test of the source, on the three numbers the conversion returns.\<close>

lemma warm_test_iff:
  "warm_test r g b =
     (\<exists>hh ss vv. rgbToHsv (byte r) (byte g) (byte b)
          = \<lparr>hsv_h = Num hh, hsv_s = Num ss, hsv_v = Num vv\<rparr>
        \<and> 0 \<le> hh \<and> hh \<le> 75 \<and> round_double (55 / 100) \<le> ss \<and> round_double (35 / 100) \<le> vv)"
proof -
  obtain hh ss vv where e: "rgbToHsv (byte r) (byte g) (byte b)
      = \<lparr>hsv_h = Num hh, hsv_s = Num ss, hsv_v = Num vv\<rparr>"
    using hue_range [of r g b] saturation_range [of r g b] value_range [of r g b]
    by (cases "rgbToHsv (byte r) (byte g) (byte b)") auto
  show ?thesis
    by (simp add: warm_test_def Let_def e js_ge_def lit_def)
qed











lemma unsigned_int: "(unsigned (w :: 8 word) :: rat) = of_int (int (unat w))"
  by simp


























section \<open>One iteration of the loop\<close>















text \<open>Every iteration, also one on a trailing partial pixel, counts under one category.\<close>

lemma loop_body_bumps_one: "\<exists>l. loop_body xs i c = bump l c"
proof -
  have "loop_body xs i c = bump Excluded c \<or> loop_body xs i c = bump DarkGreen c
      \<or> loop_body xs i c = bump Blue c \<or> loop_body xs i c = bump NeonGreen c
      \<or> loop_body xs i c = bump Grey c \<or> loop_body xs i c = bump Warm c
      \<or> loop_body xs i c = bump Other c"
    by (simp add: loop_body_def Let_def)
  then show ?thesis by blast
qed

lemma counted_bump: "counted (bump l c) = counted c + 1"
  by (cases l) (simp_all add: counted_def)

lemma counted_loop_body: "counted (loop_body xs i c) = counted c + 1"
  using loop_body_bumps_one [of xs i c] by (auto simp: counted_bump)

section \<open>The whole loop\<close>

text \<open>The loop runs once for every index 0, 4, 8, ... below the length of the buffer.\<close>

lemma counted_loop:
  "counted (loop xs i c) = counted c + int ((length xs - i + 3) div 4)"
proof (induction xs i c rule: loop.induct)
  case (1 xs i c)
  show ?case
  proof (cases "i < length xs")
    case True
    then have "(length xs - i + 3) div 4 = Suc ((length xs - (i + 4) + 3) div 4)"
      by presburger
    with True "1.IH" show ?thesis
      by (subst loop.simps) (simp add: counted_loop_body)
  next
    case False
    then show ?thesis by (subst loop.simps) simp
  qed
qed

lemma counted_zero: "counted zero_counters = 0"
  by (simp add: counted_def zero_counters_def)

lemma sum_categories:
  "sum_list (map count (categories (assemble w h c))) =
     countWarm c + countDarkGreen c + countBlue c + countNeonGreen c + countGrey c
       + countOther c"
  by (simp add: assemble_def Let_def)

lemma result_counted:
  "excludedPixels (analyzeImagePixelData img)
     + sum_list (map count (categories (analyzeImagePixelData img)))
   = int ((length (data img) + 3) div 4)"
proof -
  have "excludedPixels (assemble w h c) + sum_list (map count (categories (assemble w h c)))
        = counted c" for w h c
    by (simp add: sum_categories counted_def) (simp add: assemble_def Let_def)
  then show ?thesis
    by (simp add: analyzeImagePixelData_def counted_loop counted_zero)
qed

lemma result_totals:
  "totalPixels (analyzeImagePixelData img) = width img * height img"
  "processedPixels (analyzeImagePixelData img)
     = width img * height img - excludedPixels (analyzeImagePixelData img)"
  by (simp_all add: analyzeImagePixelData_def assemble_def Let_def)

section \<open>Percentages\<close>





text \<open>The counters never go below 0.\<close>

lemma nonneg_bump: "counters_nonneg c \<Longrightarrow> counters_nonneg (bump l c)"
  by (cases l) (simp_all add: counters_nonneg_def)

lemma nonneg_loop_body: "counters_nonneg c \<Longrightarrow> counters_nonneg (loop_body xs i c)"
  using loop_body_bumps_one [of xs i c] by (auto simp: nonneg_bump)

lemma nonneg_loop: "counters_nonneg c \<Longrightarrow> counters_nonneg (loop xs i c)"
proof (induction xs i c rule: loop.induct)
  case (1 xs i c)
  then show ?case
    by (subst loop.simps) (simp add: nonneg_loop_body)
qed

lemma nonneg_final: "counters_nonneg (loop xs 0 zero_counters)"
  by (rule nonneg_loop) (simp add: counters_nonneg_def zero_counters_def)



section \<open>The store after a call\<close>

lemma refs_category_object: "refs_of (category_object c) = {}"
  by (simp add: category_object_def)

lemma refs_result_object: "refs_of (result_object res a) = {a}"
  by (simp add: result_object_def)

lemma refs_elements: "refs_of (Elements (map RefV as)) = set as"
  by auto

lemma reachable_fresh:
  assumes new: "\<And>ob c. ob \<in> set new \<Longrightarrow> c \<in> refs_of ob \<Longrightarrow> length s \<le> c"
    and r: "length s \<le> r"
    and b: "b \<in> reachable (s @ new) r"
  shows "length s \<le> b"
  using b
proof (induction rule: reachable.induct)
  case start
  show ?case by (rule r)
next
  case (step b c)
  from step.hyps(2) step.IH
  have "(s @ new) ! b = new ! (b - length s)" "b - length s < length new"
    by (simp_all add: nth_append)
  then have "(s @ new) ! b \<in> set new" by simp
  then show ?case using step.hyps(3) by (rule new)
qed

lemma store_returns:
  assumes "load_ImageData s p = Some img"
  shows "analyzeImagePixelData_store s p =
           Some (length s + length (categories (analyzeImagePixelData img)) + 1,
                 s @ (map category_object (categories (analyzeImagePixelData img))
                   @ [Elements (map RefV [length s ..<
                        length s + length (categories (analyzeImagePixelData img))]),
                      result_object (analyzeImagePixelData img)
                        (length s + length (categories (analyzeImagePixelData img)))]))"
  using assms by (simp add: analyzeImagePixelData_store_def alloc_def Let_def)

lemma load_append:
  assumes "load_ImageData s p = Some img"
  shows "load_ImageData (s @ new) p = Some img"
  using assms
  by (auto simp add: load_ImageData_def nth_append
      split: if_splits obj.splits option.splits jsval.splits)

text \<open>Three pixels declared as 1 x 1, two of them transparent.\<close>

lemma long_buffer_result:
  "excludedPixels (analyzeImagePixelData long_buffer)
       + sum_list (map count (categories (analyzeImagePixelData long_buffer)))
     \<noteq> totalPixels (analyzeImagePixelData long_buffer)
   \<and> processedPixels (analyzeImagePixelData long_buffer) < 0"
  by code_simp

text \<open>The excluded pixels are at most as many as the bytes of the buffer.\<close>

lemma excluded_range:
  "0 \<le> excludedPixels (analyzeImagePixelData img)
   \<and> excludedPixels (analyzeImagePixelData img) \<le> int (length (data img))"
proof -
  define c where "c = loop (data img) 0 zero_counters"
  have nn: "counters_nonneg c" unfolding c_def by (rule nonneg_final)
  have "counted c = int ((length (data img) + 3) div 4)"
    by (simp add: c_def counted_loop counted_zero)
  moreover have "(length (data img) + 3) div 4 \<le> length (data img)" by presburger
  ultimately have "counted c \<le> int (length (data img))" by simp
  moreover have "excludedPixels (analyzeImagePixelData img) = excluded c"
    by (simp add: analyzeImagePixelData_def assemble_def Let_def c_def)
  ultimately show ?thesis using nn by (simp add: counters_nonneg_def counted_def)
qed


section \<open>The claims\<close>

text \<open>
  C1, as the code has it. The specification asks for a \<open>MalformedInputError\<close> when
  the buffer length is not \<open>width * height * 4\<close>. The function has no such check:
  every call returns a result, \<open>totalPixels\<close> is the product of the declared
  dimensions, and the counters cover the whole buffer, one pixel for every index
  0, 4, 8, ... below its length. The statement is for dimensions and a buffer length in
  the range of the integers that doubles represent, where the product
  \<^verbatim>\<open>width * height\<close> of the source is computed without rounding.
\<close>

theorem no_length_validation:
  assumes "\<bar>width img\<bar> \<le> 2 ^ 53" and "\<bar>height img\<bar> \<le> 2 ^ 53"
    and "\<bar>width img * height img\<bar> + int (length (data img)) \<le> 2 ^ 53"
  shows "\<exists>res. call_analyzeImagePixelData img = Inr res
     \<and> js_mul (Num (of_int (width img))) (Num (of_int (height img)))
         = Num (of_int (totalPixels res))
     \<and> totalPixels res = width img * height img
     \<and> excludedPixels res + sum_list (map count (categories res))
         = int ((length (data img) + 3) div 4)"
proof -
  have "\<bar>width img * height img\<bar> \<le> 2 ^ 53" using assms(3) by linarith
  then have "js_mul (Num (of_int (width img))) (Num (of_int (height img)))
      = Num (of_int (width img * height img))"
    by (rule product_exact)
  then show ?thesis
    by (simp add: call_analyzeImagePixelData_def result_counted result_totals)
qed

theorem no_length_validation_witness:
  "\<bar>width short_buffer\<bar> \<le> 2 ^ 53 \<and> \<bar>height short_buffer\<bar> \<le> 2 ^ 53
   \<and> \<bar>width short_buffer * height short_buffer\<bar> + int (length (data short_buffer)) \<le> 2 ^ 53
   \<and> (\<exists>res. call_analyzeImagePixelData short_buffer = Inr res
         \<and> totalPixels res = 4
         \<and> excludedPixels res + sum_list (map count (categories res)) = 1)"
proof -
  have b: "\<bar>width short_buffer\<bar> \<le> 2 ^ 53" "\<bar>height short_buffer\<bar> \<le> 2 ^ 53"
    "\<bar>width short_buffer * height short_buffer\<bar> + int (length (data short_buffer)) \<le> 2 ^ 53"
    by (simp_all add: short_buffer_def)
  from no_length_validation [OF b] obtain res
    where "call_analyzeImagePixelData short_buffer = Inr res"
      and "totalPixels res = width short_buffer * height short_buffer"
      and "excludedPixels res + sum_list (map count (categories res))
         = int ((length (data short_buffer) + 3) div 4)"
    by blast
  moreover have "width short_buffer * height short_buffer = 4"
    "int ((length (data short_buffer) + 3) div 4) = 1"
    by (simp_all add: short_buffer_def)
  ultimately show ?thesis using b by auto
qed

text \<open>
  C1 as stated fails: a 2 x 2 image with a buffer of 4 bytes instead of 16 is not
  rejected, and its one pixel is counted as Dark Green.
\<close>

theorem malformed_input_counterexample:
  "int (length (data short_buffer)) \<noteq> width short_buffer * height short_buffer * 4
   \<and> call_analyzeImagePixelData short_buffer \<noteq> Inl MalformedInputError
   \<and> map count (categories (analyzeImagePixelData short_buffer)) = [0, 1, 0, 0, 0, 0]"
  by (simp add: call_analyzeImagePixelData_def) code_simp

text \<open>
  C2 (conservation). A bitmap is a buffer of \<open>width * height\<close> pixels of 4 bytes. For
  every bitmap, \<open>excludedPixels\<close> plus the sum of the six category counts is
  \<open>totalPixels\<close>, which is \<open>width * height\<close>; every iteration of the loop counts its
  pixel under exactly one of excluded and the six categories.
\<close>

theorem conservation:
  assumes "int (length (data img)) = width img * height img * 4"
  shows "excludedPixels (analyzeImagePixelData img)
           + sum_list (map count (categories (analyzeImagePixelData img)))
         = totalPixels (analyzeImagePixelData img)
       \<and> totalPixels (analyzeImagePixelData img) = width img * height img
       \<and> (\<forall>i c. \<exists>l. loop_body (data img) i c = bump l c)"
proof -
  have "int ((length (data img) + 3) div 4) = (int (length (data img)) + 3) div 4"
    by (simp add: zdiv_int)
  also have "\<dots> = width img * height img" using assms by simp
  finally show ?thesis
    by (simp add: result_counted result_totals loop_body_bumps_one)
qed

theorem conservation_witness:
  "int (length [200, 30, 30, 255, 255, 0, 255, 255 :: 8 word]) = 2 * 1 * 4
   \<and> excludedPixels (analyzeImagePixelData
        \<lparr>width = 2, height = 1, data = [200, 30, 30, 255, 255, 0, 255, 255]\<rparr>) = 1
   \<and> map count (categories (analyzeImagePixelData
        \<lparr>width = 2, height = 1, data = [200, 30, 30, 255, 255, 0, 255, 255]\<rparr>))
       = [1, 0, 0, 0, 0, 0]
   \<and> totalPixels (analyzeImagePixelData
        \<lparr>width = 2, height = 1, data = [200, 30, 30, 255, 255, 0, 255, 255]\<rparr>) = 2"
proof -
  have "excludedPixels (analyzeImagePixelData
        \<lparr>width = 2, height = 1, data = [200, 30, 30, 255, 255, 0, 255, 255]\<rparr>) = 1"
    and "map count (categories (analyzeImagePixelData
        \<lparr>width = 2, height = 1, data = [200, 30, 30, 255, 255, 0, 255, 255]\<rparr>))
       = [1, 0, 0, 0, 0, 0]"
    by code_simp+
  then show ?thesis
    using conservation
      [of "\<lparr>width = 2, height = 1, data = [200, 30, 30, 255, 255, 0, 255, 255]\<rparr>"]
    by simp
qed




text \<open>
  On a bitmap the two roundings show: one pixel of three is reported as
  33.33333333333333, a double below \<open>100 / 3\<close>.
\<close>

lemma percentage_rounding:
  "int (length (data thirds)) = width thirds * height thirds * 4
   \<and> processedPixels (analyzeImagePixelData thirds) = 3
   \<and> map count (categories (analyzeImagePixelData thirds)) = [0, 1, 1, 1, 0, 0]
   \<and> map percentage (categories (analyzeImagePixelData thirds))
       = [Num 0, Num (2345624805922133 / 70368744177664),
          Num (2345624805922133 / 70368744177664), Num (2345624805922133 / 70368744177664),
          Num 0, Num 0]
   \<and> (2345624805922133 / 70368744177664 :: rat) < 100 * 1 / 3"
  by (intro conjI; code_simp)








text \<open>
  Other pixels of the edge are counted as Warm: (69,92,0) has the hue 75 and the
  conversion returns 75. The pixel (100,45,45) has the saturation 0.55; the conversion
  returns 0.5499999999999999 and the pixel is Other.
\<close>

lemma band_edge_warm:
  "spec_rgbToHsv 69 92 0 = (75, 1, 92 / 255)
   \<and> hsv_h (rgbToHsv (byte 69) (byte 92) (byte 0)) = Num 75
   \<and> loop_body [69, 92, 0, 255] 0 zero_counters = zero_counters\<lparr>countWarm := 1\<rparr>"
  by (intro conjI; code_simp)

lemma band_edge_rounding:
  "loop_body [100, 45, 45, 255] 0 zero_counters = zero_counters\<lparr>countOther := 1\<rparr>
   \<and> hsv_s (rgbToHsv (byte 100) (byte 45) (byte 45)) = Num (4953959590107545 / 9007199254740992)
   \<and> spec_rgbToHsv 100 45 45 = (0, 55 / 100, 20 / 51)"
  by (intro conjI; code_simp)

text \<open>
  C7 (the conversion is total and safe). For all bytes \<open>r\<close>, \<open>g\<close>, \<open>b\<close> the
  conversion returns three finite numbers, so that no division had a zero divisor and
  nothing is \<open>NaN\<close>, with \<open>0 \<le> H < 360\<close>, \<open>0 \<le> S \<le> 1\<close> and \<open>0 \<le> V \<le> 1\<close>;
  \<open>S\<close> is 0 when the maximum is 0 (black) and \<open>H\<close> is 0 when the three channels are
  equal (delta is 0).
\<close>

theorem rgbToHsv_total:
  fixes r g b :: "8 word"
  shows "\<exists>hh ss vv. rgbToHsv (byte r) (byte g) (byte b)
             = \<lparr>hsv_h = Num hh, hsv_s = Num ss, hsv_v = Num vv\<rparr>
           \<and> 0 \<le> hh \<and> hh < 360 \<and> 0 \<le> ss \<and> ss \<le> 1 \<and> 0 \<le> vv \<and> vv \<le> 1
           \<and> (r = 0 \<and> g = 0 \<and> b = 0 \<longrightarrow> ss = 0)
           \<and> (r = g \<and> g = b \<longrightarrow> hh = 0)"
proof -
  obtain hh where hh: "hsv_h (rgbToHsv (byte r) (byte g) (byte b)) = Num hh"
      "0 \<le> hh" "hh < 360" "r = g \<and> g = b \<longrightarrow> hh = 0"
    using hue_range [of r g b] by blast
  obtain ss where ss: "hsv_s (rgbToHsv (byte r) (byte g) (byte b)) = Num ss"
      "0 \<le> ss" "ss \<le> 1" "r = 0 \<and> g = 0 \<and> b = 0 \<longrightarrow> ss = 0"
    using saturation_range [of r g b] by blast
  obtain vv where vv: "hsv_v (rgbToHsv (byte r) (byte g) (byte b)) = Num vv"
      "0 \<le> vv" "vv \<le> 1"
    using value_range [of r g b] by blast
  have "rgbToHsv (byte r) (byte g) (byte b) = \<lparr>hsv_h = Num hh, hsv_s = Num ss, hsv_v = Num vv\<rparr>"
    using hh(1) ss(1) vv(1) by (cases "rgbToHsv (byte r) (byte g) (byte b)") simp
  with hh ss vv show ?thesis by blast
qed

theorem rgbToHsv_total_witness:
  "rgbToHsv (byte 0) (byte 0) (byte 0) = \<lparr>hsv_h = Num 0, hsv_s = Num 0, hsv_v = Num 0\<rparr>"
proof -
  have v: "hsv_v (rgbToHsv (byte 0) (byte 0) (byte 0)) = Num 0" by code_simp
  from rgbToHsv_total [of 0 0 0] obtain hh ss vv
    where "rgbToHsv (byte 0) (byte 0) (byte 0) = \<lparr>hsv_h = Num hh, hsv_s = Num ss, hsv_v = Num vv\<rparr>"
      and "ss = 0" and "hh = 0"
    by auto
  with v show ?thesis by simp
qed

text \<open>
  C8 (stable output order). Whatever the input, the categories of the result are
  Warm, Dark Green, Blue, Neon Green, Grey, Other, in this order.
\<close>

theorem category_order:
  "map ident (categories (analyzeImagePixelData img))
     = [''warm'', ''dark_green'', ''blue'', ''neon_green'', ''grey'', ''other'']
   \<and> map name (categories (analyzeImagePixelData img))
     = [''Warm (Red/Orange/Yellow)'', ''Dark Green (#009245)'', ''Blue (#0000ff)'',
        ''Neon Green (#00ff00)'', ''Grey (#4d4d4d)'', ''Other / Unclassified'']"
  by (simp add: analyzeImagePixelData_def assemble_def Let_def)

text \<open>
  C9 (the input is not mutated). A call on an \<^verbatim>\<open>ImageData\<close> object returns; every
  object that existed before the call is unchanged afterwards, so the argument still
  has its width, its height and every byte of its buffer; and no object reachable from
  the returned result existed before the call, so the result holds no reference to the
  buffer or to the argument.
\<close>

theorem input_not_mutated:
  assumes "load_ImageData s p = Some img"
  shows "\<exists>r s'. analyzeImagePixelData_store s p = Some (r, s')
       \<and> take (length s) s' = s
       \<and> load_ImageData s' p = Some img
       \<and> length s \<le> r \<and> r < length s'
       \<and> s' ! r = result_object (analyzeImagePixelData img) (r - 1)
       \<and> reachable s' r \<inter> {..< length s} = {}"
proof -
  define k where "k = length (categories (analyzeImagePixelData img))"
  define new where "new = map category_object (categories (analyzeImagePixelData img))
            @ [Elements (map RefV [length s ..< length s + k]),
               result_object (analyzeImagePixelData img) (length s + k)]"
  define r where "r = length s + k + 1"
  have run: "analyzeImagePixelData_store s p = Some (r, s @ new)"
    using store_returns [OF assms] by (simp add: r_def new_def k_def)
  have len: "length new = k + 2" by (simp add: new_def k_def)
  have at_r: "(s @ new) ! r = result_object (analyzeImagePixelData img) (r - 1)"
    by (simp add: r_def nth_append new_def k_def)
  have fresh: "length s \<le> c" if "ob \<in> set new" "c \<in> refs_of ob" for ob c
    using that
    by (auto simp add: new_def refs_category_object refs_result_object simp del: refs_of.simps)
       (auto simp add: refs_of.simps)
  have "length s \<le> b" if "b \<in> reachable (s @ new) r" for b
  proof (rule reachable_fresh [where new = new and r = r])
    show "\<And>ob c. ob \<in> set new \<Longrightarrow> c \<in> refs_of ob \<Longrightarrow> length s \<le> c" by (rule fresh)
    show "length s \<le> r" by (simp add: r_def)
    show "b \<in> reachable (s @ new) r" by (rule that)
  qed
  then have "reachable (s @ new) r \<inter> {..< length s} = {}" by fastforce
  moreover have "length s \<le> r" "r < length (s @ new)" by (simp_all add: r_def len)
  ultimately show ?thesis
    using run at_r load_append [OF assms, of new] by simp
qed

theorem input_not_mutated_witness:
  "load_ImageData one_pixel_store 1 = Some \<lparr>width = 1, height = 1, data = [0, 146, 69, 255]\<rparr>
   \<and> (\<exists>r s'. analyzeImagePixelData_store one_pixel_store 1 = Some (r, s')
         \<and> take 2 s' = one_pixel_store
         \<and> s' ! 0 = Bytes [0, 146, 69, 255]
         \<and> reachable s' r \<inter> {..< 2} = {})"
proof -
  have l: "load_ImageData one_pixel_store 1
      = Some \<lparr>width = 1, height = 1, data = [0, 146, 69, 255]\<rparr>"
    by (simp add: load_ImageData_def one_pixel_store_def)
  from input_not_mutated [OF l] obtain r s'
    where a: "analyzeImagePixelData_store one_pixel_store 1 = Some (r, s')"
      and b: "take (length one_pixel_store) s' = one_pixel_store"
      and c: "reachable s' r \<inter> {..< length one_pixel_store} = {}"
    by blast
  have n: "length one_pixel_store = 2" by (simp add: one_pixel_store_def)
  have "s' ! 0 = take 2 s' ! 0" by simp
  also have "\<dots> = Bytes [0, 146, 69, 255]"
    using b by (simp only: n) (simp add: one_pixel_store_def)
  finally show ?thesis using l a b c by (auto simp add: n)
qed

text \<open>
  C10, as the code has it. The function returns a result for every input.
  \<open>totalPixels\<close> is the product of the declared dimensions and \<open>processedPixels\<close> is
  \<open>totalPixels - excludedPixels\<close>, while the loop classifies one pixel for every index
  0, 4, 8, ... below the buffer length, that is the length divided by 4 and rounded up.
  The statement is for dimensions and a buffer length in the range of the integers that
  doubles represent, where the product and the difference of the source are computed
  without rounding. With a buffer of three pixels declared as 1 x 1, conservation fails
  and \<open>processedPixels\<close> is negative.
\<close>

theorem total_on_all_inputs:
  assumes "\<bar>width img\<bar> \<le> 2 ^ 53" and "\<bar>height img\<bar> \<le> 2 ^ 53"
    and "\<bar>width img * height img\<bar> + int (length (data img)) \<le> 2 ^ 53"
  shows "call_analyzeImagePixelData img = Inr (analyzeImagePixelData img)
   \<and> js_mul (Num (of_int (width img))) (Num (of_int (height img)))
       = Num (of_int (totalPixels (analyzeImagePixelData img)))
   \<and> totalPixels (analyzeImagePixelData img) = width img * height img
   \<and> js_sub (Num (of_int (totalPixels (analyzeImagePixelData img))))
         (Num (of_int (excludedPixels (analyzeImagePixelData img))))
       = Num (of_int (processedPixels (analyzeImagePixelData img)))
   \<and> processedPixels (analyzeImagePixelData img)
       = width img * height img - excludedPixels (analyzeImagePixelData img)
   \<and> excludedPixels (analyzeImagePixelData img)
         + sum_list (map count (categories (analyzeImagePixelData img)))
       = int ((length (data img) + 3) div 4)
   \<and> int (length (data long_buffer)) \<noteq> width long_buffer * height long_buffer * 4
   \<and> excludedPixels (analyzeImagePixelData long_buffer)
         + sum_list (map count (categories (analyzeImagePixelData long_buffer)))
       \<noteq> totalPixels (analyzeImagePixelData long_buffer)
   \<and> processedPixels (analyzeImagePixelData long_buffer) < 0"
proof -
  have "\<bar>width img * height img\<bar> \<le> 2 ^ 53" using assms(3) by linarith
  then have m: "js_mul (Num (of_int (width img))) (Num (of_int (height img)))
      = Num (of_int (width img * height img))"
    by (rule product_exact)
  have "\<bar>width img * height img - excludedPixels (analyzeImagePixelData img)\<bar> \<le> 2 ^ 53"
    using assms(3) excluded_range [of img] by linarith
  then have s: "js_sub (Num (of_int (width img * height img)))
        (Num (of_int (excludedPixels (analyzeImagePixelData img))))
      = Num (of_int (width img * height img - excludedPixels (analyzeImagePixelData img)))"
    by (rule difference_exact)
  have "int (length (data long_buffer)) \<noteq> width long_buffer * height long_buffer * 4"
    by (simp add: long_buffer_def)
  then show ?thesis
    using long_buffer_result result_counted [of img] m s
    by (simp add: call_analyzeImagePixelData_def result_totals)
qed

theorem total_on_all_inputs_witness:
  "\<bar>width long_buffer\<bar> \<le> 2 ^ 53 \<and> \<bar>height long_buffer\<bar> \<le> 2 ^ 53
   \<and> \<bar>width long_buffer * height long_buffer\<bar> + int (length (data long_buffer)) \<le> 2 ^ 53
   \<and> totalPixels (analyzeImagePixelData long_buffer) = 1
   \<and> excludedPixels (analyzeImagePixelData long_buffer) = 2
   \<and> processedPixels (analyzeImagePixelData long_buffer) = - 1
   \<and> excludedPixels (analyzeImagePixelData long_buffer)
         + sum_list (map count (categories (analyzeImagePixelData long_buffer))) = 3"
proof -
  have b: "\<bar>width long_buffer\<bar> \<le> 2 ^ 53" "\<bar>height long_buffer\<bar> \<le> 2 ^ 53"
    "\<bar>width long_buffer * height long_buffer\<bar> + int (length (data long_buffer)) \<le> 2 ^ 53"
    by (simp_all add: long_buffer_def)
  have e: "excludedPixels (analyzeImagePixelData long_buffer) = 2" by code_simp
  have v: "width long_buffer * height long_buffer = 1"
    "int ((length (data long_buffer) + 3) div 4) = 3"
    by (simp_all add: long_buffer_def)
  from total_on_all_inputs [OF b]
  have "totalPixels (analyzeImagePixelData long_buffer) = width long_buffer * height long_buffer"
    and "processedPixels (analyzeImagePixelData long_buffer)
       = width long_buffer * height long_buffer - excludedPixels (analyzeImagePixelData long_buffer)"
    and "excludedPixels (analyzeImagePixelData long_buffer)
         + sum_list (map count (categories (analyzeImagePixelData long_buffer)))
       = int ((length (data long_buffer) + 3) div 4)"
    by blast+
  then show ?thesis using b e v by simp
qed

text \<open>
  C10 as stated fails in one clause: the loop does not classify the length divided by 4
  and rounded down. A buffer of 3 bytes gets one iteration, which counts the bytes
  (0,146,69) as Dark Green although the alpha byte is missing.
\<close>

theorem floor_count_counterexample:
  "excludedPixels (analyzeImagePixelData ragged_buffer)
     + sum_list (map count (categories (analyzeImagePixelData ragged_buffer)))
   \<noteq> int (length (data ragged_buffer) div 4)"
  by code_simp

end
